theory Spec2Isabelle
  imports Main "HOL-Library.AList"
begin

section \<open>Python values used by the two scripts\<close>

text \<open>
  A Python \<open>str\<close> is modelled as a \<open>string\<close>, each \<open>char\<close> read as the code point of
  the same number (U+0000 to U+00FF). The character classes below are the ones Python's
  \<open>re\<close> module and \<open>str.strip\<close>/\<open>str.lower\<close> use on these code points.
  Python's \<open>int\<close> is \<open>int\<close>; list positions are \<open>nat\<close>.
\<close>

datatype py_error = IndexError | OverflowError | ValueError

definition is_space :: "char \<Rightarrow> bool" where
  \<comment> \<open>\<open>\s\<close> and the characters removed by \<open>str.strip()\<close>\<close>
  "is_space c =
     (let n = (of_char c :: nat)
      in (9 \<le> n \<and> n \<le> 13) \<or> (28 \<le> n \<and> n \<le> 32) \<or> n = 133 \<or> n = 160)"

definition is_word :: "char \<Rightarrow> bool" where
  \<comment> \<open>\<open>\w\<close>: alphanumeric (\<open>str.isalnum\<close>) or underscore\<close>
  "is_word c =
     (let n = (of_char c :: nat)
      in (48 \<le> n \<and> n \<le> 57) \<or> (65 \<le> n \<and> n \<le> 90) \<or> n = 95 \<or> (97 \<le> n \<and> n \<le> 122)
         \<or> n = 170 \<or> n = 178 \<or> n = 179 \<or> n = 181 \<or> n = 185 \<or> n = 186
         \<or> (188 \<le> n \<and> n \<le> 190) \<or> (192 \<le> n \<and> n \<le> 214)
         \<or> (216 \<le> n \<and> n \<le> 246) \<or> (248 \<le> n \<and> n \<le> 255))"

definition lower_char :: "char \<Rightarrow> char" where
  "lower_char c =
     (let n = (of_char c :: nat)
      in if (65 \<le> n \<and> n \<le> 90) \<or> (192 \<le> n \<and> n \<le> 214) \<or> (216 \<le> n \<and> n \<le> 222)
         then char_of (n + 32) else c)"

definition lower :: "string \<Rightarrow> string" where
  \<comment> \<open>\<open>str.lower()\<close>\<close>
  "lower s = map lower_char s"

definition strip :: "string \<Rightarrow> string" where
  \<comment> \<open>\<open>str.strip()\<close>\<close>
  "strip s = rev (dropWhile is_space (rev (dropWhile is_space s)))"

fun join :: "string \<Rightarrow> string list \<Rightarrow> string" where
  \<comment> \<open>\<open>sep.join(parts)\<close>\<close>
  "join sep [] = []"
| "join sep [x] = x"
| "join sep (x # y # zs) = x @ sep @ join sep (y # zs)"

definition list_getitem :: "'a list \<Rightarrow> nat \<Rightarrow> py_error + 'a" where
  \<comment> \<open>\<open>xs[i]\<close> for a non-negative \<open>i\<close>\<close>
  "list_getitem xs i = (if i < length xs then Inr (xs ! i) else Inl IndexError)"

fun getitems :: "'a list \<Rightarrow> nat list \<Rightarrow> py_error + 'a list" where
  \<comment> \<open>the comprehension \<open>[xs[i] for i in idxs]\<close>\<close>
  "getitems xs [] = Inr []"
| "getitems xs (i # idxs) =
     (case list_getitem xs i of
        Inl e \<Rightarrow> Inl e
      | Inr x \<Rightarrow> (case getitems xs idxs of Inl e \<Rightarrow> Inl e | Inr ys \<Rightarrow> Inr (x # ys)))"

subsection \<open>Regular expressions of the summarizer\<close>

text \<open>
  \<open>re.findall(r'\b\w+\b', s)\<close> scans \<open>s\<close> from the left and returns the maximal runs of
  word characters: a match must start and end at a word boundary, and \<open>\w+\<close> is greedy.
  \<open>cur\<close> is the run read so far.
\<close>

fun word_runs :: "string \<Rightarrow> string \<Rightarrow> string list" where
  "word_runs cur [] = (if cur = [] then [] else [cur])"
| "word_runs cur (c # cs) =
     (if is_word c then word_runs (cur @ [c]) cs
      else (if cur = [] then [] else [cur]) @ word_runs [] cs)"

definition findall_words :: "string \<Rightarrow> string list" where
  "findall_words s = word_runs [] s"

definition is_terminal :: "char \<Rightarrow> bool" where
  \<comment> \<open>the class \<open>[.!?]\<close>\<close>
  "is_terminal c = (c = CHR ''.'' \<or> c = CHR ''!'' \<or> c = CHR ''?'')"

text \<open>
  \<open>re.split(r'(?<=[.!?])\s+', s)\<close>: a separator is a maximal run of whitespace whose
  preceding character is one of \<open>.!?\<close>; the pieces between the separators are returned,
  and a string without separator is returned whole (also the empty string).
  \<open>cur\<close> is the piece read so far; its last character is the character before the
  position examined.
\<close>

function split_sentences :: "string \<Rightarrow> string \<Rightarrow> string list" where
  "split_sentences cur [] = [cur]"
| "split_sentences cur (c # cs) =
     (if is_space c \<and> cur \<noteq> [] \<and> is_terminal (last cur)
      then cur # split_sentences [] (dropWhile is_space cs)
      else split_sentences (cur @ [c]) cs)"
  by pat_completeness auto
termination
  by (relation "measure (\<lambda>(cur, s). length s)")
     (auto simp: less_Suc_eq_le length_dropWhile_le)

subsection \<open>\<open>defaultdict(int)\<close>\<close>

text \<open>
  A dictionary is the list of its items in insertion order. Subscripting a
  \<open>defaultdict(int)\<close> with a missing key inserts the key with value 0 and returns 0, so
  reading returns the dictionary too.
\<close>

type_synonym 'k defaultdict = "('k \<times> int) list"

definition dd_contains :: "'k \<Rightarrow> 'k defaultdict \<Rightarrow> bool" where
  \<comment> \<open>\<open>k in d\<close>\<close>
  "dd_contains k d = (map_of d k \<noteq> None)"

definition dd_getitem :: "'k defaultdict \<Rightarrow> 'k \<Rightarrow> int \<times> 'k defaultdict" where
  \<comment> \<open>\<open>d[k]\<close> as an expression\<close>
  "dd_getitem d k = (case map_of d k of Some v \<Rightarrow> (v, d) | None \<Rightarrow> (0, d @ [(k, 0)]))"

definition dd_setitem :: "'k defaultdict \<Rightarrow> 'k \<Rightarrow> int \<Rightarrow> 'k defaultdict" where
  \<comment> \<open>\<open>d[k] = v\<close>: an existing key keeps its position, a new one goes last\<close>
  "dd_setitem d k v = AList.update k v d"

definition dd_iadd :: "'k defaultdict \<Rightarrow> 'k \<Rightarrow> int \<Rightarrow> 'k defaultdict" where
  \<comment> \<open>\<open>d[k] += x\<close>: read \<open>d[k]\<close>, then store the sum\<close>
  "dd_iadd d k x = (let (v, d1) = dd_getitem d k in dd_setitem d1 k (v + x))"

subsection \<open>Floats\<close>

text \<open>
  Every finite IEEE 754 double is an integer multiple of \<open>2 ^ -1074\<close>; \<open>Finite n\<close> is the
  double \<open>n * 2 ^ -1074\<close> (both zeros are \<open>Finite 0\<close>). The sign of an infinity is not
  recorded: nothing below depends on it.
\<close>

datatype pyfloat = Finite int | Infinity | NaN

function bit_length :: "int \<Rightarrow> nat" where
  \<comment> \<open>\<open>int.bit_length()\<close> of a non-negative \<open>int\<close>\<close>
  "bit_length n = (if n \<le> 0 then 0 else Suc (bit_length (n div 2)))"
  by pat_completeness auto
termination
  by (relation "measure nat") auto

declare bit_length.simps [simp del]

definition round_half_even :: "int \<Rightarrow> nat \<Rightarrow> int" where
  \<comment> \<open>\<open>a / 2 ^ k\<close> rounded to the nearest integer, ties to even (\<open>0 \<le> a\<close>, \<open>0 < k\<close>)\<close>
  "round_half_even a k =
     (let q = a div 2 ^ k; r = a mod 2 ^ k; h = 2 ^ (k - 1)
      in if r < h \<or> (r = h \<and> even q) then q else q + 1)"

definition round_magnitude :: "int \<Rightarrow> int" where
  \<comment> \<open>\<open>m * 2 ^ -2148\<close> for \<open>0 \<le> m\<close>, rounded to 53 significant bits and to no bit below
      \<open>2 ^ -1074\<close>; the result counts units of \<open>2 ^ -1074\<close>\<close>
  "round_magnitude m =
     (let k = max (bit_length m - 53) 1074
      in round_half_even m k * 2 ^ (k - 1074))"

definition round_to_double :: "int \<Rightarrow> pyfloat" where
  \<comment> \<open>the double nearest to \<open>a * 2 ^ -2148\<close>, infinite from \<open>2 ^ 1024\<close> on\<close>
  "round_to_double a =
     (let q = round_magnitude \<bar>a\<bar>
      in if 2 ^ 2098 \<le> q then Infinity else Finite (sgn a * q))"

definition float_of_int :: "int \<Rightarrow> py_error + pyfloat" where
  \<comment> \<open>the conversion of an \<open>int\<close> operand of a float operation\<close>
  "float_of_int n =
     (case round_to_double (n * 2 ^ 2148) of
        Infinity \<Rightarrow> Inl OverflowError
      | f \<Rightarrow> Inr f)"

fun float_mul :: "pyfloat \<Rightarrow> pyfloat \<Rightarrow> pyfloat" where
  "float_mul (Finite x) (Finite y) = round_to_double (x * y)"
| "float_mul NaN _ = NaN"
| "float_mul _ NaN = NaN"
| "float_mul Infinity (Finite y) = (if y = 0 then NaN else Infinity)"
| "float_mul (Finite x) Infinity = (if x = 0 then NaN else Infinity)"
| "float_mul Infinity Infinity = Infinity"

fun int_of_float :: "pyfloat \<Rightarrow> py_error + int" where
  \<comment> \<open>\<open>int(f)\<close>: truncation towards zero\<close>
  "int_of_float (Finite x) = Inr (sgn x * (\<bar>x\<bar> div 2 ^ 1074))"
| "int_of_float Infinity = Inl OverflowError"
| "int_of_float NaN = Inl ValueError"

subsection \<open>\<open>heapq.nlargest\<close> and \<open>sorted\<close>\<close>

text \<open>
  \<open>nlargest(n, items, key=key)\<close> returns what \<open>sorted(items, key=key, reverse=True)[:n]\<close>
  returns: the items by descending key, items of equal key in the order of \<open>items\<close>.
\<close>

definition nlargest :: "nat \<Rightarrow> ('a \<Rightarrow> int) \<Rightarrow> 'a list \<Rightarrow> 'a list" where
  "nlargest n key xs = take n (sort_key (\<lambda>x. - key x) xs)"

section \<open>The summarizer\<close>

definition STOP_WORDS :: "string list" where
  "STOP_WORDS =
   [''a'', ''an'', ''and'', ''the'', ''is'', ''are'', ''was'', ''were'', ''he'',
    ''she'', ''it'', ''i'', ''you'', ''we'', ''they'', ''him'', ''her'', ''us'',
    ''them'', ''my'', ''your'', ''our'', ''their'', ''this'', ''that'', ''these'',
    ''those'', ''of'', ''in'', ''on'', ''at'', ''to'', ''for'', ''with'', ''as'',
    ''by'', ''but'', ''so'', ''if'', ''or'', ''up'', ''down'', ''out'', ''into'',
    ''from'', ''about'', ''just'', ''can'', ''will'', ''would'', ''should'', ''has'',
    ''have'', ''had'', ''do'', ''does'', ''did'', ''be'', ''being'', ''been'']"

definition preprocess_text :: "string \<Rightarrow> string list \<times> string list" where
  "preprocess_text text =
     (let sentences = split_sentences [] (strip text);
          words = findall_words (lower text)
      in (sentences, words))"

text \<open>The loop of \<open>calculate_word_frequencies\<close>, on the dictionary built so far.\<close>

fun count_words :: "string list \<Rightarrow> string defaultdict \<Rightarrow> string defaultdict" where
  "count_words [] word_frequencies = word_frequencies"
| "count_words (word # words) word_frequencies =
     (if word \<notin> set STOP_WORDS
      then count_words words (dd_iadd word_frequencies word 1)
      else count_words words word_frequencies)"

definition calculate_word_frequencies :: "string list \<Rightarrow> string defaultdict" where
  "calculate_word_frequencies words = count_words words []"

text \<open>
  \<open>score_sentences\<close> reads \<open>word_frequencies\<close> by subscript, which can change a
  \<open>defaultdict\<close>: both dictionaries are threaded through the two loops, and the
  function returns the frequency map as it leaves it next to the scores.
\<close>

fun score_words ::
  "nat \<Rightarrow> string list \<Rightarrow> nat defaultdict \<times> string defaultdict
     \<Rightarrow> nat defaultdict \<times> string defaultdict" where
  "score_words i [] st = st"
| "score_words i (word # ws) (sentence_scores, word_frequencies) =
     (if dd_contains word word_frequencies
      then (let (s, scores1) = dd_getitem sentence_scores i;
                (f, freqs1) = dd_getitem word_frequencies word
            in score_words i ws (dd_setitem scores1 i (s + f), freqs1))
      else score_words i ws (sentence_scores, word_frequencies))"

fun score_loop ::
  "(nat \<times> string) list \<Rightarrow> nat defaultdict \<times> string defaultdict
     \<Rightarrow> nat defaultdict \<times> string defaultdict" where
  "score_loop [] st = st"
| "score_loop ((i, sentence) # rest) st =
     score_loop rest (score_words i (findall_words (lower sentence)) st)"

definition score_sentences ::
  "string list \<Rightarrow> string defaultdict \<Rightarrow> nat defaultdict \<times> string defaultdict" where
  "score_sentences sentences word_frequencies =
     score_loop (enumerate 0 sentences) ([], word_frequencies)"

definition summary_sentences_count :: "int \<Rightarrow> pyfloat \<Rightarrow> py_error + int" where
  \<comment> \<open>\<open>max(1, int(num_sentences * ratio))\<close>\<close>
  "summary_sentences_count num_sentences ratio =
     (case float_of_int num_sentences of
        Inl e \<Rightarrow> Inl e
      | Inr f \<Rightarrow>
          (case int_of_float (float_mul f ratio) of
             Inl e \<Rightarrow> Inl e
           | Inr k \<Rightarrow> Inr (max 1 k)))"

definition top_indices :: "nat defaultdict \<Rightarrow> int \<Rightarrow> nat list" where
  \<comment> \<open>steps 5 of \<open>summarize_text\<close>: \<open>nlargest\<close> on the items by score, then the sorted indices\<close>
  "top_indices sentence_scores count =
     sort (map fst (nlargest (nat count) snd sentence_scores))"

definition summarize_text :: "string \<Rightarrow> pyfloat \<Rightarrow> py_error + string" where
  "summarize_text text ratio =
     (if text = [] then Inr ''Error: Input text is empty.''
      else
        let (sentences, words) = preprocess_text text;
            word_frequencies = calculate_word_frequencies words
        in if word_frequencies = []
           then Inr (''Error: Could not calculate word frequencies '' @
                     ''(text may contain only stop words or be too short).'')
           else
             let (sentence_scores, word_frequencies1) =
                   score_sentences sentences word_frequencies;
                 num_sentences = int (length sentences)
             in case summary_sentences_count num_sentences ratio of
                  Inl e \<Rightarrow> Inl e
                | Inr count \<Rightarrow>
                    (case getitems sentences (top_indices sentence_scores count) of
                       Inl e \<Rightarrow> Inl e
                     | Inr summary_parts \<Rightarrow> Inr (join '' '' summary_parts)))"

section \<open>The matrix script\<close>

text \<open>
  \<open>edit.py\<close> updates \<open>result\<close> in place in three nested \<open>for\<close> loops over \<open>range\<close>s.
  Each loop is a fold over its range with \<open>result\<close> as the state; an index outside a
  list raises \<open>IndexError\<close>.
\<close>

definition X :: "int list list" where
  "X = [[12, 7, 3], [4, 5, 6], [7, 8, 9]]"

definition Y :: "int list list" where
  "Y = [[5, 8, 1, 2], [6, 7, 3, 0], [4, 5, 9, 1]]"

definition result0 :: "int list list" where
  "result0 = [[0, 0, 0, 0], [0, 0, 0, 0], [0, 0, 0, 0]]"

definition cell :: "int list list \<Rightarrow> nat \<Rightarrow> nat \<Rightarrow> py_error + int" where
  \<comment> \<open>\<open>m[i][j]\<close>\<close>
  "cell m i j = (case list_getitem m i of Inl e \<Rightarrow> Inl e | Inr row \<Rightarrow> list_getitem row j)"

definition loop_body ::
  "int list list \<Rightarrow> int list list \<Rightarrow> nat \<Rightarrow> nat \<Rightarrow> nat \<Rightarrow> int list list
     \<Rightarrow> py_error + int list list" where
  \<comment> \<open>\<open>result[i][j] += A[i][k] * B[k][j]\<close>\<close>
  "loop_body A B i j k result =
     (case cell result i j of Inl e \<Rightarrow> Inl e | Inr r \<Rightarrow>
       (case cell A i k of Inl e \<Rightarrow> Inl e | Inr a \<Rightarrow>
         (case cell B k j of Inl e \<Rightarrow> Inl e | Inr b \<Rightarrow>
            Inr (result[i := (result ! i)[j := r + a * b]]))))"

fun for_range ::
  "nat list \<Rightarrow> (nat \<Rightarrow> 's \<Rightarrow> py_error + 's) \<Rightarrow> 's \<Rightarrow> py_error + 's" where
  \<comment> \<open>\<open>for i in range: state = body(i, state)\<close>, stopping at the first exception\<close>
  "for_range [] body s = Inr s"
| "for_range (i # is) body s =
     (case body i s of Inl e \<Rightarrow> Inl e | Inr s' \<Rightarrow> for_range is body s')"

definition multiply ::
  "int list list \<Rightarrow> int list list \<Rightarrow> int list list \<Rightarrow> py_error + int list list" where
  "multiply A B result =
     for_range [0..<length A] (\<lambda>i.
       for_range [0..<length (B ! 0)] (\<lambda>j.
         for_range [0..<length B] (\<lambda>k. loop_body A B i j k))) result"

definition matrix_script :: "py_error + int list list" where
  "matrix_script = multiply X Y result0"

definition dot :: "int list list \<Rightarrow> int list list \<Rightarrow> nat \<Rightarrow> nat \<Rightarrow> int" where
  \<comment> \<open>the entry of the matrix product: the sum over \<open>k\<close> of \<open>A[i][k] * B[k][j]\<close>\<close>
  "dot A B i j = (\<Sum>k \<leftarrow> [0..<length B]. A ! i ! k * B ! k ! j)"

definition lower_words :: "string \<Rightarrow> string list" where
  \<comment> \<open>the word tokens of a string: \<open>re.findall(r'\b\w+\b', s.lower())\<close>\<close>
  "lower_words s = findall_words (lower s)"

text \<open>
  What the score map is expected to hold: one item for each sentence with a word of the
  frequency map, in the order of the sentences, with the sum of its words' frequencies.
\<close>

definition freq_of :: "string defaultdict \<Rightarrow> string \<Rightarrow> int" where
  "freq_of word_frequencies w =
     (case map_of word_frequencies w of Some f \<Rightarrow> f | None \<Rightarrow> 0)"

definition sentence_score :: "string defaultdict \<Rightarrow> string \<Rightarrow> int" where
  "sentence_score word_frequencies s = (\<Sum>w \<leftarrow> lower_words s. freq_of word_frequencies w)"

definition scorable :: "string defaultdict \<Rightarrow> string \<Rightarrow> bool" where
  "scorable word_frequencies s =
     (\<exists>w \<in> set (lower_words s). dd_contains w word_frequencies)"

definition expected_scores ::
  "string defaultdict \<Rightarrow> (nat \<times> string) list \<Rightarrow> nat defaultdict" where
  "expected_scores word_frequencies es =
     map (\<lambda>(i, s). (i, sentence_score word_frequencies s))
       (filter (\<lambda>(i, s). scorable word_frequencies s) es)"

text \<open>
  The value of \<open>top_indices\<close> in \<open>summarize_text(text, ratio)\<close>, for a text that passes
  the two checks: the positions of the sentences of the summary.
\<close>

definition summary_indices :: "string \<Rightarrow> pyfloat \<Rightarrow> py_error + nat list" where
  "summary_indices text ratio =
     (let (sentences, words) = preprocess_text text;
          word_frequencies = calculate_word_frequencies words;
          (sentence_scores, word_frequencies1) = score_sentences sentences word_frequencies
      in case summary_sentences_count (int (length sentences)) ratio of
           Inl e \<Rightarrow> Inl e
         | Inr count \<Rightarrow> Inr (top_indices sentence_scores count))"

definition round_shift :: "int \<Rightarrow> nat" where
  \<comment> \<open>the number of low bits that \<open>round_magnitude\<close> rounds away\<close>
  "round_shift m = max (bit_length m - 53) 1074"

definition ranks_before :: "nat \<times> int \<Rightarrow> nat \<times> int \<Rightarrow> bool" where
  \<comment> \<open>item \<open>a\<close> of the score map is ahead of item \<open>b\<close>: a higher score, or the same score
      and a lower sentence index\<close>
  "ranks_before a b = (snd b < snd a \<or> (snd a = snd b \<and> fst a < fst b))"

text \<open>The intermediate values of \<open>summarize_text(text, ratio)\<close>, by name.\<close>

definition sentences_of :: "string \<Rightarrow> string list" where
  "sentences_of text = fst (preprocess_text text)"

definition word_frequencies_of :: "string \<Rightarrow> string defaultdict" where
  "word_frequencies_of text = calculate_word_frequencies (snd (preprocess_text text))"

definition sentence_scores_of :: "string \<Rightarrow> nat defaultdict" where
  "sentence_scores_of text =
     fst (score_sentences (sentences_of text) (word_frequencies_of text))"

definition freq_ok :: "string defaultdict \<Rightarrow> bool" where
  \<comment> \<open>the invariant of the frequency map\<close>
  "freq_ok d = (\<forall>(w, n) \<in> set d. w \<notin> set STOP_WORDS \<and> 0 < n)"

section \<open>The matrix script computes the product\<close>

lemma matrix_script_value:
  "matrix_script = Inr [[114, 160, 60, 27], [74, 97, 73, 14], [119, 157, 112, 23]]"
  by (simp add: matrix_script_def multiply_def X_def Y_def result0_def loop_body_def
      cell_def list_getitem_def upt_rec)

text \<open>
  Claim C8: after the triple loop of the matrix script, \<open>result\<close> is the 3 by 4 matrix
  whose entry \<open>i, j\<close> is the sum over \<open>k\<close> of \<open>X[i][k] * Y[k][j]\<close>, for the literal 3 by 3
  matrix \<open>X\<close> and 3 by 4 matrix \<open>Y\<close>; no index leaves its list.
\<close>

theorem matrix_script_is_product:
  "matrix_script =
     Inr (map (\<lambda>i. map (\<lambda>j. dot X Y i j) [0..<length (Y ! 0)]) [0..<length X])"
  unfolding matrix_script_value
  by (simp add: dot_def X_def Y_def upt_rec)

section \<open>Scoring leaves the frequency map as it was\<close>

lemma dd_getitem_present:
  "dd_contains k d \<Longrightarrow> snd (dd_getitem d k) = d"
  by (auto simp: dd_contains_def dd_getitem_def)

text \<open>Subscripting with a missing key is what would add an entry.\<close>

lemma dd_getitem_missing:
  "\<not> dd_contains k d \<Longrightarrow> dd_getitem d k = (0, d @ [(k, 0)])"
  by (auto simp: dd_contains_def dd_getitem_def)

lemma score_words_frame: "snd (score_words i ws (scores, freqs)) = freqs"
proof (induction ws arbitrary: scores)
  case Nil
  show ?case by simp
next
  case (Cons w ws)
  show ?case
  proof (cases "dd_contains w freqs")
    case True
    then have "snd (dd_getitem freqs w) = freqs" by (rule dd_getitem_present)
    with True Cons show ?thesis
      by (simp add: split_beta)
  next
    case False
    with Cons show ?thesis by simp
  qed
qed

lemma score_loop_frame: "snd (score_loop es (scores, freqs)) = freqs"
proof (induction es arbitrary: scores)
  case Nil
  show ?case by simp
next
  case (Cons e es)
  obtain i s where e: "e = (i, s)" by (cases e)
  obtain sc fr where st: "score_words i (findall_words (lower s)) (scores, freqs) = (sc, fr)"
    by (cases "score_words i (findall_words (lower s)) (scores, freqs)")
  with score_words_frame[of i "findall_words (lower s)" scores freqs] have "fr = freqs" by simp
  with Cons e st show ?case by simp
qed

text \<open>
  Claim C10: for every sentence list and every frequency map, \<open>score_sentences\<close> leaves
  the frequency map it was given unchanged: every subscript of the \<open>defaultdict\<close> is
  guarded by a membership test, so no entry is added while scoring.
\<close>

theorem score_sentences_frame:
  "snd (score_sentences sentences word_frequencies) = word_frequencies"
  by (simp add: score_sentences_def score_loop_frame)

section \<open>The tokenizer\<close>

lemma space_not_word: "is_space c \<Longrightarrow> \<not> is_word c"
  by (auto simp: is_space_def is_word_def Let_def)

lemma of_char_less_256: "(of_char c :: nat) < 256"
  by simp

lemma is_word_lower_char [simp]: "is_word (lower_char c) = is_word c"
  using of_char_less_256[of c]
  by (auto simp: is_word_def lower_char_def Let_def)

lemma word_runs_nonword:
  "\<not> is_word c \<Longrightarrow> word_runs cur (a @ c # b) = word_runs cur a @ word_runs [] b"
  by (induction a arbitrary: cur) auto

lemma findall_words_nonword:
  "\<not> is_word c \<Longrightarrow> findall_words (a @ c # b) = findall_words a @ findall_words b"
  by (simp add: findall_words_def word_runs_nonword)

lemma findall_words_Nil [simp]: "findall_words [] = []"
  by (simp add: findall_words_def)

lemma findall_words_nonword_Cons:
  "\<not> is_word c \<Longrightarrow> findall_words (c # b) = findall_words b"
  using findall_words_nonword[of c "[]" b] by simp

lemma findall_words_nonword_snoc:
  "\<not> is_word c \<Longrightarrow> findall_words (a @ [c]) = findall_words a"
  using findall_words_nonword[of c a "[]"] by simp

lemma lower_words_nonword:
  "\<not> is_word c \<Longrightarrow> lower_words (a @ c # b) = lower_words a @ lower_words b"
  by (simp add: lower_words_def lower_def findall_words_nonword)

lemma lower_words_Nil [simp]: "lower_words [] = []"
  by (simp add: lower_words_def lower_def)

lemma lower_words_dropWhile: "lower_words (dropWhile is_space s) = lower_words s"
proof (induction s)
  case Nil
  show ?case by simp
next
  case (Cons c s)
  show ?case
  proof (cases "is_space c")
    case True
    then have "\<not> is_word c" by (rule space_not_word)
    then have "lower_words (c # s) = lower_words s"
      using lower_words_nonword[of c "[]" s] by simp
    with True Cons show ?thesis by simp
  next
    case False
    then show ?thesis by simp
  qed
qed

lemma lower_words_append_spaces:
  "\<forall>c \<in> set sp. is_space c \<Longrightarrow> lower_words (a @ sp) = lower_words a"
proof (induction sp rule: rev_induct)
  case Nil
  show ?case by simp
next
  case (snoc c sp)
  then have "\<not> is_word c" by (simp add: space_not_word)
  then have "lower_words ((a @ sp) @ c # []) = lower_words (a @ sp) @ lower_words []"
    by (rule lower_words_nonword)
  with snoc show ?case by simp
qed

lemma strip_decomp:
  "\<exists>sp. (\<forall>c \<in> set sp. is_space c) \<and> dropWhile is_space s = strip s @ sp"
proof -
  let ?t = "dropWhile is_space s"
  have "strip s @ rev (takeWhile is_space (rev ?t))
          = rev (takeWhile is_space (rev ?t) @ dropWhile is_space (rev ?t))"
    by (simp only: strip_def rev_append)
  also have "\<dots> = ?t"
    by (simp only: takeWhile_dropWhile_id rev_rev_ident)
  finally have "?t = strip s @ rev (takeWhile is_space (rev ?t))" by simp
  moreover have "\<forall>c \<in> set (rev (takeWhile is_space (rev ?t))). is_space c"
    by (auto dest: set_takeWhileD)
  ultimately show ?thesis by blast
qed

lemma lower_words_strip: "lower_words (strip s) = lower_words s"
proof -
  obtain sp where sp: "\<forall>c \<in> set sp. is_space c" "dropWhile is_space s = strip s @ sp"
    using strip_decomp by blast
  have "lower_words s = lower_words (dropWhile is_space s)"
    by (simp add: lower_words_dropWhile)
  also have "\<dots> = lower_words (strip s)"
    using sp by (simp add: lower_words_append_spaces)
  finally show ?thesis by simp
qed

lemma words_of_split:
  "concat (map lower_words (split_sentences cur s)) = lower_words (cur @ s)"
proof (induction cur s rule: split_sentences.induct)
  case (1 cur)
  show ?case by simp
next
  case (2 cur c cs)
  show ?case
  proof (cases "is_space c \<and> cur \<noteq> [] \<and> is_terminal (last cur)")
    case True
    then have "\<not> is_word c" by (simp add: space_not_word)
    then have "lower_words (cur @ c # cs) = lower_words cur @ lower_words cs"
      by (rule lower_words_nonword)
    with True 2(1)[OF True] show ?thesis by (simp add: lower_words_dropWhile)
  next
    case False
    then have "split_sentences cur (c # cs) = split_sentences (cur @ [c]) cs"
      by auto
    with 2(2)[OF False] show ?thesis by simp
  qed
qed

lemma words_of_sentences:
  "concat (map lower_words (fst (preprocess_text text))) = snd (preprocess_text text)"
  by (simp add: preprocess_text_def words_of_split lower_words_strip)
     (simp add: lower_words_def)

lemma length_split_sentences: "length (split_sentences cur s) \<le> Suc (length s)"
proof (induction cur s rule: split_sentences.induct)
  case (1 cur)
  show ?case by simp
next
  case (2 cur c cs)
  show ?case
  proof (cases "is_space c \<and> cur \<noteq> [] \<and> is_terminal (last cur)")
    case True
    have "length (dropWhile is_space cs) \<le> length cs" by (rule length_dropWhile_le)
    with True 2(1)[OF True] show ?thesis by simp
  next
    case False
    then have "split_sentences cur (c # cs) = split_sentences (cur @ [c]) cs"
      by auto
    with 2(2)[OF False] show ?thesis by simp
  qed
qed

lemma split_sentences_nonempty [simp]: "split_sentences cur s \<noteq> []"
  by (induction cur s rule: split_sentences.induct) auto

lemma length_strip: "length (strip s) \<le> length s"
proof -
  have "length (strip s) \<le> length (dropWhile is_space s)"
    using length_dropWhile_le[of is_space "rev (dropWhile is_space s)"]
    by (simp add: strip_def)
  also have "\<dots> \<le> length s" by (rule length_dropWhile_le)
  finally show ?thesis .
qed

section \<open>The frequency map\<close>

lemma update_append_new:
  "map_of d k = None \<Longrightarrow> AList.update k v (d @ [(k, u)]) = d @ [(k, v)]"
  by (induction d) (auto split: if_splits)

lemma set_update_subset: "set (AList.update k v d) \<subseteq> insert (k, v) (set d)"
  by (induction d) auto

lemma keys_update: "fst ` set (AList.update k v d) = insert k (fst ` set d)"
  by (induction d) auto

lemma dd_iadd_new:
  "map_of d k = None \<Longrightarrow> dd_iadd d k x = d @ [(k, x)]"
  by (simp add: dd_iadd_def dd_getitem_def dd_setitem_def update_append_new)

lemma dd_iadd_old:
  "map_of d k = Some v \<Longrightarrow> dd_iadd d k x = AList.update k (v + x) d"
  by (simp add: dd_iadd_def dd_getitem_def dd_setitem_def)

lemma keys_dd_iadd: "fst ` set (dd_iadd d k x) = insert k (fst ` set d)"
proof (cases "map_of d k")
  case None
  then show ?thesis by (simp add: dd_iadd_new)
next
  case (Some v)
  then show ?thesis by (simp add: dd_iadd_old keys_update)
qed

lemma freq_ok_iadd:
  assumes "freq_ok d" "w \<notin> set STOP_WORDS"
  shows "freq_ok (dd_iadd d w 1)"
proof (cases "map_of d w")
  case None
  with assms show ?thesis by (auto simp: dd_iadd_new freq_ok_def)
next
  case (Some v)
  then have "(w, v) \<in> set d" by (rule map_of_SomeD)
  with assms have "0 < v" by (auto simp: freq_ok_def)
  with assms Some set_update_subset[of w "v + 1" d] show ?thesis
    by (auto simp: dd_iadd_old freq_ok_def)
qed

lemma freq_ok_count_words: "freq_ok d \<Longrightarrow> freq_ok (count_words ws d)"
  by (induction ws arbitrary: d) (simp_all add: freq_ok_iadd)

lemma keys_count_words:
  "fst ` set (count_words ws d) = fst ` set d \<union> {w \<in> set ws. w \<notin> set STOP_WORDS}"
proof (induction ws arbitrary: d)
  case Nil
  show ?case by simp
next
  case (Cons w ws)
  show ?case by (auto simp: Cons keys_dd_iadd)
qed

lemma keys_word_frequencies:
  "fst ` set (calculate_word_frequencies words) = {w \<in> set words. w \<notin> set STOP_WORDS}"
  by (simp add: calculate_word_frequencies_def keys_count_words)

lemma word_frequencies_empty_iff:
  "calculate_word_frequencies words = [] \<longleftrightarrow> (\<forall>w \<in> set words. w \<in> set STOP_WORDS)"
proof -
  have "calculate_word_frequencies words = []
          \<longleftrightarrow> fst ` set (calculate_word_frequencies words) = {}"
    by simp
  then show ?thesis unfolding keys_word_frequencies by auto
qed

text \<open>
  Claim C7: for every word sequence, every key of the frequency map returned by
  \<open>calculate_word_frequencies\<close> is absent from the stop-word set and every count is a
  positive integer.
\<close>

theorem word_frequencies_invariant:
  "(w, n) \<in> set (calculate_word_frequencies words) \<Longrightarrow> w \<notin> set STOP_WORDS \<and> 0 < n"
  using freq_ok_count_words[of "[]" words]
  by (auto simp: calculate_word_frequencies_def freq_ok_def)

lemma word_frequencies_example:
  "calculate_word_frequencies [''the'', ''cat'', ''sat'', ''cat''] = [(''cat'', 2), (''sat'', 1)]"
  by (simp add: calculate_word_frequencies_def STOP_WORDS_def dd_iadd_def dd_getitem_def
      dd_setitem_def)

theorem word_frequencies_invariant_witness:
  "(''cat'', 2) \<in> set (calculate_word_frequencies [''the'', ''cat'', ''sat'', ''cat''])
   \<and> ''cat'' \<notin> set STOP_WORDS \<and> (0 :: int) < 2"
  using word_frequencies_invariant[of "''cat''" 2 "[''the'', ''cat'', ''sat'', ''cat'']"]
  by (simp add: word_frequencies_example)

section \<open>The score map\<close>

lemma score_words_Cons_in:
  "map_of freqs w = Some f \<Longrightarrow>
     score_words i (w # ws) (scores, freqs) = score_words i ws (dd_iadd scores i f, freqs)"
  by (simp add: dd_contains_def dd_getitem_def dd_iadd_def split_beta)

lemma score_words_Cons_out:
  "map_of freqs w = None \<Longrightarrow>
     score_words i (w # ws) (scores, freqs) = score_words i ws (scores, freqs)"
  by (simp add: dd_contains_def)

lemma dd_iadd_last:
  assumes "map_of sc i = None"
  shows "dd_iadd (sc @ [(i, v)]) i f = sc @ [(i, v + f)]"
proof -
  from assms have "map_of (sc @ [(i, v)]) i = Some v"
    by (simp add: map_add_def)
  then have "dd_iadd (sc @ [(i, v)]) i f = AList.update i (v + f) (sc @ [(i, v)])"
    by (rule dd_iadd_old)
  with assms show ?thesis by (simp add: update_append_new)
qed

lemma freq_of_simps:
  "map_of freqs w = Some f \<Longrightarrow> freq_of freqs w = f"
  "map_of freqs w = None \<Longrightarrow> freq_of freqs w = 0"
  by (simp_all add: freq_of_def)

lemma score_words_last:
  "map_of sc i = None \<Longrightarrow>
     score_words i ws (sc @ [(i, v)], freqs)
       = (sc @ [(i, v + (\<Sum>w \<leftarrow> ws. freq_of freqs w))], freqs)"
proof (induction ws arbitrary: v)
  case Nil
  show ?case by simp
next
  case (Cons w ws)
  show ?case
  proof (cases "map_of freqs w")
    case None
    with Cons show ?thesis
      by (simp add: score_words_Cons_out freq_of_simps del: score_words.simps)
  next
    case (Some f)
    with Cons show ?thesis
      by (simp add: score_words_Cons_in dd_iadd_last freq_of_simps add.assoc
          del: score_words.simps)
  qed
qed

lemma score_words_new:
  "map_of sc i = None \<Longrightarrow>
     score_words i ws (sc, freqs)
       = (if \<exists>w \<in> set ws. dd_contains w freqs
          then sc @ [(i, \<Sum>w \<leftarrow> ws. freq_of freqs w)] else sc, freqs)"
proof (induction ws)
  case Nil
  show ?case by simp
next
  case (Cons w ws)
  show ?case
  proof (cases "map_of freqs w")
    case None
    with Cons show ?thesis
      by (simp add: score_words_Cons_out freq_of_simps dd_contains_def
          del: score_words.simps)
  next
    case (Some f)
    with Cons(2) show ?thesis
      by (simp add: score_words_Cons_in dd_iadd_new score_words_last freq_of_simps
          dd_contains_def del: score_words.simps)
  qed
qed

lemma score_loop_enumerate:
  "\<forall>k \<in> fst ` set sc. k < n \<Longrightarrow>
     score_loop (enumerate n ss) (sc, freqs) = (sc @ expected_scores freqs (enumerate n ss), freqs)"
proof (induction ss arbitrary: n sc)
  case Nil
  show ?case by (simp add: expected_scores_def)
next
  case (Cons s ss)
  from Cons.prems have none: "map_of sc n = None"
    by (auto simp: map_of_eq_None_iff)
  let ?sc = "if scorable freqs s then sc @ [(n, sentence_score freqs s)] else sc"
  have step: "score_words n (findall_words (lower s)) (sc, freqs) = (?sc, freqs)"
    using score_words_new[OF none, of "lower_words s" freqs]
    by (simp add: scorable_def sentence_score_def lower_words_def)
  have "\<forall>k \<in> fst ` set ?sc. k < Suc n"
    using Cons.prems by (auto simp: less_Suc_eq)
  from Cons.IH[OF this] step show ?case
    by (simp add: expected_scores_def)
qed

lemma score_sentences_eq:
  "score_sentences sentences freqs = (expected_scores freqs (enumerate 0 sentences), freqs)"
  using score_loop_enumerate[of "[]" 0 sentences freqs]
  by (simp add: score_sentences_def)

lemma keys_expected_scores:
  "map fst (expected_scores freqs es) = map fst (filter (\<lambda>(i, s). scorable freqs s) es)"
  by (induction es) (auto simp: expected_scores_def)

lemma sorted_keys_enumerate:
  "sorted_wrt (<) (map fst (filter P (enumerate n ss)))"
proof -
  have "sorted_wrt (<) (map fst (enumerate n ss))"
    by simp
  then show ?thesis
    by (metis sorted_wrt_filter sorted_wrt_map)
qed

section \<open>Selection of the top sentences\<close>

lemma insort_ranks:
  assumes "sorted_wrt ranks_before ys" "sorted (map (\<lambda>x. - snd x) ys)"
    and "\<forall>z \<in> set ys. fst a < fst z"
  shows "sorted_wrt ranks_before (insort_key (\<lambda>x. - snd x) a ys)"
  using assms
proof (induction ys)
  case Nil
  show ?case by simp
next
  case (Cons z ys)
  show ?case
  proof (cases "- snd a \<le> - snd z")
    case True
    have "ranks_before a w" if "w \<in> set (z # ys)" for w
    proof -
      from that Cons.prems(2) have "- snd z \<le> - snd w" by auto
      moreover from that Cons.prems(3) have "fst a < fst w" by auto
      ultimately show ?thesis using True by (auto simp: ranks_before_def)
    qed
    with True Cons.prems(1) show ?thesis by simp
  next
    case False
    then have "ranks_before z a" by (auto simp: ranks_before_def)
    moreover have "sorted_wrt ranks_before (insort_key (\<lambda>x. - snd x) a ys)"
      using Cons by simp
    ultimately show ?thesis using False Cons.prems(1)
      by (auto simp: set_insort_key)
  qed
qed

lemma sort_key_ranks:
  "sorted_wrt (<) (map fst xs) \<Longrightarrow> sorted_wrt ranks_before (sort_key (\<lambda>x. - snd x) xs)"
proof (induction xs)
  case Nil
  show ?case by simp
next
  case (Cons a xs)
  then have "\<forall>z \<in> set (sort_key (\<lambda>x. - snd x) xs). fst a < fst z" by auto
  with Cons show ?case
    by (simp add: insort_ranks)
qed

lemma ranks_before_asym: "ranks_before a b \<Longrightarrow> \<not> ranks_before b a"
  by (auto simp: ranks_before_def)

lemma take_closed:
  assumes "sorted_wrt ranks_before ys" "y \<in> set (take n ys)" "x \<in> set ys" "ranks_before x y"
  shows "x \<in> set (take n ys)"
proof (rule ccontr)
  assume "x \<notin> set (take n ys)"
  with assms(3) have "x \<in> set (drop n ys)"
    by (metis Un_iff append_take_drop_id set_append)
  moreover from assms(1) have "sorted_wrt ranks_before (take n ys @ drop n ys)" by simp
  ultimately have "ranks_before y x"
    using assms(2) unfolding sorted_wrt_append by blast
  with assms(4) show False by (simp add: ranks_before_asym)
qed

lemma nlargest_closed:
  assumes "sorted_wrt (<) (map fst xs)" "y \<in> set (nlargest n snd xs)" "x \<in> set xs"
    "ranks_before x y"
  shows "x \<in> set (nlargest n snd xs)"
  using take_closed[OF sort_key_ranks[OF assms(1)], of y n x] assms(2-4)
  by (simp add: nlargest_def)

lemma set_nlargest: "set (nlargest n key xs) \<subseteq> set xs"
  by (auto simp: nlargest_def dest: in_set_takeD)

lemma length_nlargest: "length (nlargest n key xs) = min n (length xs)"
  by (simp add: nlargest_def min.commute)

lemma distinct_keys_sort_key:
  assumes "distinct (map fst xs)"
  shows "distinct (map fst (sort_key f xs))"
proof -
  from assms have "card (set (map fst xs)) = length (map fst xs)" by (rule distinct_card)
  then have "card (set (map fst (sort_key f xs))) = length (map fst (sort_key f xs))" by simp
  then show ?thesis by (rule card_distinct)
qed

lemma distinct_keys_nlargest:
  "distinct (map fst xs) \<Longrightarrow> distinct (map fst (nlargest n key xs))"
  using distinct_keys_sort_key[of xs "\<lambda>x. - key x"]
  by (simp add: nlargest_def take_map[symmetric])

lemma set_top_indices: "set (top_indices scores count) = fst ` set (nlargest (nat count) snd scores)"
  by (simp add: top_indices_def)

lemma top_indices_subset: "set (top_indices scores count) \<subseteq> fst ` set scores"
  using set_nlargest[of "nat count" snd scores] by (auto simp: top_indices_def)

lemma length_top_indices: "length (top_indices scores count) = min (nat count) (length scores)"
  by (simp add: top_indices_def length_nlargest)

lemma top_indices_strict:
  "sorted_wrt (<) (map fst scores) \<Longrightarrow> sorted_wrt (<) (top_indices scores count)"
  by (simp add: strict_sorted_iff top_indices_def distinct_keys_nlargest)

lemma top_indices_all:
  assumes "sorted_wrt (<) (map fst scores)" "length scores \<le> nat count"
  shows "top_indices scores count = map fst scores"
proof -
  have "nlargest (nat count) snd scores = sort_key (\<lambda>x. - snd x) scores"
    using assms(2) by (simp add: nlargest_def)
  then have "set (top_indices scores count) = set (map fst scores)"
    by (simp add: top_indices_def)
  moreover have "sorted_wrt (<) (top_indices scores count)"
    using assms(1) by (rule top_indices_strict)
  ultimately show ?thesis
    using assms(1) by (auto simp: strict_sorted_iff intro: sorted_distinct_set_unique)
qed

lemma top_indices_closed:
  assumes "sorted_wrt (<) (map fst scores)"
    and "(i, v) \<in> set scores" "(j, u) \<in> set scores" "ranks_before (i, v) (j, u)"
    and "j \<in> set (top_indices scores count)"
  shows "i \<in> set (top_indices scores count)"
proof -
  from assms(5) obtain u' where u': "(j, u') \<in> set (nlargest (nat count) snd scores)"
    by (auto simp: set_top_indices)
  with set_nlargest[of "nat count" snd scores] have "(j, u') \<in> set scores" by auto
  moreover from assms(1) have "distinct (map fst scores)" by (simp add: strict_sorted_iff)
  ultimately have "u' = u" using assms(3) by (meson eq_key_imp_eq_value)
  with u' nlargest_closed[OF assms(1) _ assms(2) assms(4)]
  have "(i, v) \<in> set (nlargest (nat count) snd scores)" by simp
  then show ?thesis by (force simp: set_top_indices)
qed

section \<open>Float arithmetic of the sentence count\<close>

lemma bit_length_0 [simp]: "n \<le> 0 \<Longrightarrow> bit_length n = 0"
  by (simp add: bit_length.simps)

lemma bit_length_pos: "0 < n \<Longrightarrow> bit_length n = Suc (bit_length (n div 2))"
  by (subst bit_length.simps) simp

lemma bit_length_upper: "n < 2 ^ bit_length n"
proof (induction n rule: bit_length.induct)
  case (1 n)
  show ?case
  proof (cases "n \<le> 0")
    case True
    then show ?thesis by simp
  next
    case False
    with 1 have "n div 2 < 2 ^ bit_length (n div 2)" by simp
    then have "n < 2 * 2 ^ bit_length (n div 2)" by linarith
    with False show ?thesis by (simp add: bit_length_pos)
  qed
qed

lemma bit_length_lower: "0 < n \<Longrightarrow> 2 ^ bit_length n \<le> 2 * n"
proof (induction n rule: bit_length.induct)
  case (1 n)
  show ?case
  proof (cases "n div 2 \<le> 0")
    case True
    with 1(2) show ?thesis by (simp add: bit_length_pos)
  next
    case False
    with 1 have "2 ^ bit_length (n div 2) \<le> 2 * (n div 2)" by simp
    also have "\<dots> \<le> n" by linarith
    finally show ?thesis using 1(2) by (simp add: bit_length_pos)
  qed
qed

lemma bit_length_le: "n < 2 ^ k \<Longrightarrow> bit_length n \<le> k"
proof (cases "0 < n")
  case False
  then show ?thesis by simp
next
  case True
  assume "n < 2 ^ k"
  with bit_length_lower[OF True] have "(2::int) ^ bit_length n < 2 ^ Suc k" by simp
  then have "bit_length n < Suc k" by (simp only: power_strict_increasing_iff)
  then show ?thesis by simp
qed

lemma bit_length_mono: "a \<le> b \<Longrightarrow> bit_length a \<le> bit_length b"
  using bit_length_upper[of b] by (intro bit_length_le) linarith


lemma rhe_lower: "a div 2 ^ k \<le> round_half_even a k"
  by (simp add: round_half_even_def Let_def)

lemma rhe_upper: "round_half_even a k \<le> a div 2 ^ k + 1"
  by (simp add: round_half_even_def Let_def)

lemma rhe_exact: "0 < k \<Longrightarrow> round_half_even (c * 2 ^ k) k = c"
  by (simp add: round_half_even_def Let_def)

lemma rhe_mono:
  assumes "a \<le> b"
  shows "round_half_even a k \<le> round_half_even b k"
proof (cases "a div 2 ^ k = b div 2 ^ k")
  case True
  have "a div 2 ^ k * 2 ^ k + a mod 2 ^ k \<le> b div 2 ^ k * 2 ^ k + b mod 2 ^ k"
    using assms by (simp only: div_mult_mod_eq)
  with True have "a mod 2 ^ k \<le> b mod 2 ^ k" by simp
  with True show ?thesis
    by (auto simp: round_half_even_def Let_def)
next
  case False
  moreover have "a div 2 ^ k \<le> b div 2 ^ k"
    using assms by (simp add: zdiv_mono1)
  ultimately have "a div 2 ^ k + 1 \<le> b div 2 ^ k" by simp
  with rhe_upper[of a k] rhe_lower[of b k] show ?thesis by linarith
qed

lemma rhe_le: "0 < k \<Longrightarrow> a \<le> c * 2 ^ k \<Longrightarrow> round_half_even a k \<le> c"
  using rhe_mono[of a "c * 2 ^ k" k] by (simp add: rhe_exact)

lemma rhe_ge: "0 < k \<Longrightarrow> c * 2 ^ k \<le> a \<Longrightarrow> c \<le> round_half_even a k"
  using rhe_mono[of "c * 2 ^ k" a k] by (simp add: rhe_exact)

lemma round_magnitude_alt:
  "round_magnitude m = round_half_even m (round_shift m) * 2 ^ (round_shift m - 1074)"
  by (simp add: round_magnitude_def round_shift_def Let_def)

lemma round_shift_ge: "1074 \<le> round_shift m"
  by (simp add: round_shift_def)

lemma round_shift_mono: "a \<le> b \<Longrightarrow> round_shift a \<le> round_shift b"
  using bit_length_mono[of a b] by (auto simp: round_shift_def)

lemma round_magnitude_exact:
  assumes "0 \<le> m" "m < 2 ^ 53" "1074 \<le> j"
  shows "round_magnitude (m * 2 ^ j) = m * 2 ^ (j - 1074)"
proof -
  let ?k = "round_shift (m * 2 ^ j)"
  have "m * 2 ^ j < 2 ^ 53 * 2 ^ j" using assms(2) by simp
  then have "bit_length (m * 2 ^ j) \<le> 53 + j"
    by (intro bit_length_le) (simp add: power_add)
  with assms(3) have kj: "?k \<le> j" by (simp add: round_shift_def)
  have k: "1074 \<le> ?k" by (rule round_shift_ge)
  from kj have "(2::int) ^ j = 2 ^ (j - ?k) * 2 ^ ?k"
    by (simp add: power_add[symmetric])
  then have "m * 2 ^ j = (m * 2 ^ (j - ?k)) * 2 ^ ?k"
    by (simp only: mult.assoc)
  moreover have "round_half_even ((m * 2 ^ (j - ?k)) * 2 ^ ?k) ?k = m * 2 ^ (j - ?k)"
    using k by (intro rhe_exact) simp
  ultimately have "round_half_even (m * 2 ^ j) ?k = m * 2 ^ (j - ?k)"
    by (simp only:)
  then have "round_magnitude (m * 2 ^ j) = m * (2 ^ (j - ?k) * 2 ^ (?k - 1074))"
    by (simp add: round_magnitude_alt)
  also have "(2::int) ^ (j - ?k) * 2 ^ (?k - 1074) = 2 ^ (j - 1074)"
    using k kj by (simp add: power_add[symmetric])
  finally show ?thesis .
qed

lemma round_magnitude_mono:
  assumes "0 \<le> a" "a \<le> b"
  shows "round_magnitude a \<le> round_magnitude b"
proof (cases "round_shift a = round_shift b")
  case True
  then show ?thesis
    using rhe_mono[OF assms(2), of "round_shift b"]
    by (simp add: round_magnitude_alt)
next
  case False
  let ?ka = "round_shift a" and ?kb = "round_shift b"
  from False round_shift_mono[OF assms(2)] have lt: "?ka < ?kb" by simp
  have ka: "1074 \<le> ?ka" by (rule round_shift_ge)
  have "bit_length a \<le> ?ka + 53" by (simp add: round_shift_def)
  with bit_length_upper[of a] have "a < 2 ^ (?ka + 53)"
    by (smt (verit) power_increasing)
  then have "a \<le> 2 ^ 53 * 2 ^ ?ka" by (simp add: power_add mult.commute)
  with ka have "round_half_even a ?ka \<le> 2 ^ 53" by (intro rhe_le) simp_all
  then have "round_magnitude a \<le> 2 ^ 53 * 2 ^ (?ka - 1074)"
    by (simp add: round_magnitude_alt)
  also have "\<dots> = 2 ^ 52 * 2 ^ Suc (?ka - 1074)"
    by simp
  also have "\<dots> \<le> 2 ^ 52 * 2 ^ (?kb - 1074)"
    using lt ka by (intro mult_left_mono power_increasing) simp_all
  finally have upper: "round_magnitude a \<le> 2 ^ 52 * 2 ^ (?kb - 1074)" .
  from lt ka have kb: "?kb = bit_length b - 53" "53 < bit_length b"
    by (auto simp: round_shift_def max_def split: if_splits)
  then have "0 < b" by (metis bit_length_0 not_le not_less_zero)
  from bit_length_lower[OF this] kb have "2 ^ (Suc (?kb + 52)) \<le> 2 * b"
    by simp
  then have "2 ^ 52 * 2 ^ ?kb \<le> b" by (simp add: power_add mult.commute)
  with lt have "2 ^ 52 \<le> round_half_even b ?kb" by (intro rhe_ge) simp_all
  then have "2 ^ 52 * 2 ^ (?kb - 1074) \<le> round_magnitude b"
    by (simp add: round_magnitude_alt)
  with upper show ?thesis by linarith
qed


lemma round_magnitude_nonneg: "0 \<le> a \<Longrightarrow> 0 \<le> round_magnitude a"
  using rhe_lower[of a "round_shift a"]
  by (simp add: round_magnitude_alt pos_imp_zdiv_nonneg_iff order_trans[OF _ rhe_lower])

lemma round_magnitude_pow: "1074 \<le> j \<Longrightarrow> round_magnitude (2 ^ j) = 2 ^ (j - 1074)"
  using round_magnitude_exact[of 1 j] by simp

lemma round_magnitude_le_pow:
  "0 \<le> a \<Longrightarrow> a \<le> 2 ^ j \<Longrightarrow> 1074 \<le> j \<Longrightarrow> round_magnitude a \<le> 2 ^ (j - 1074)"
  using round_magnitude_mono[of a "2 ^ j"] by (simp add: round_magnitude_pow)

lemma round_magnitude_ge_pow:
  "2 ^ j \<le> a \<Longrightarrow> 1074 \<le> j \<Longrightarrow> 2 ^ (j - 1074) \<le> round_magnitude a"
  using round_magnitude_mono[of "2 ^ j" a] by (simp add: round_magnitude_pow)

lemma round_to_double_pos:
  assumes "0 < a" "round_magnitude a < 2 ^ 2098"
  shows "round_to_double a = Finite (round_magnitude a)"
  using assms by (simp add: round_to_double_def Let_def del: power_numeral)

declare power_numeral [simp del]

lemma pow_1137_less: "(2::int) ^ 1137 < 2 ^ 2098"
  by (intro power_strict_increasing) simp_all

lemma float_of_int_bounds:
  assumes "1 \<le> n" "n < 2 ^ 63"
  shows "\<exists>f. float_of_int n = Inr (Finite f) \<and> 2 ^ 1074 \<le> f \<and> f \<le> 2 ^ 1137"
proof -
  let ?f = "round_magnitude (n * 2 ^ 2148)"
  have "(2::int) ^ 2148 \<le> n * 2 ^ 2148" using assms(1) by simp
  then have "2 ^ (2148 - 1074) \<le> ?f" by (rule round_magnitude_ge_pow) simp
  then have lo: "2 ^ 1074 \<le> ?f" by simp
  have "n * 2 ^ 2148 \<le> 2 ^ 63 * 2 ^ 2148"
    using assms(2) by (intro mult_right_mono) simp_all
  also have "\<dots> = 2 ^ (63 + 2148)" by (simp only: power_add)
  finally have "n * 2 ^ 2148 \<le> 2 ^ 2211" by simp
  moreover have "0 \<le> n * 2 ^ 2148" using assms(1) by simp
  ultimately have "?f \<le> 2 ^ (2211 - 1074)" by (intro round_magnitude_le_pow) simp_all
  then have hi: "?f \<le> 2 ^ 1137" by simp
  with pow_1137_less have "?f < 2 ^ 2098" by linarith
  moreover have "0 < n * 2 ^ 2148" using assms(1) by simp
  ultimately have "round_to_double (n * 2 ^ 2148) = Finite ?f"
    by (rule round_to_double_pos[rotated])
  then have "float_of_int n = Inr (Finite ?f)" by (simp add: float_of_int_def)
  with lo hi show ?thesis by blast
qed

lemma float_of_int_exact:
  assumes "1 \<le> n" "n < 2 ^ 53"
  shows "float_of_int n = Inr (Finite (n * 2 ^ 1074))"
proof -
  from assms have "round_magnitude (n * 2 ^ 2148) = n * 2 ^ (2148 - 1074)"
    by (intro round_magnitude_exact) simp_all
  then have rm: "round_magnitude (n * 2 ^ 2148) = n * 2 ^ 1074" by simp
  have "n * 2 ^ 1074 \<le> 2 ^ 63 * 2 ^ 1074"
    using assms(2) by (intro mult_right_mono) (simp_all add: power_numeral)
  also have "\<dots> = 2 ^ (63 + 1074)" by (simp only: power_add)
  also have "\<dots> = 2 ^ 1137" by simp
  finally have "round_magnitude (n * 2 ^ 2148) < 2 ^ 2098"
    using rm pow_1137_less by linarith
  moreover have "0 < n * 2 ^ 2148" using assms(1) by simp
  ultimately have "round_to_double (n * 2 ^ 2148) = Finite (n * 2 ^ 1074)"
    using round_to_double_pos[of "n * 2 ^ 2148"] rm by simp
  then show ?thesis by (simp add: float_of_int_def)
qed

lemma float_mul_bounded:
  assumes "0 < f" "f \<le> 2 ^ 1137" "0 < r" "r \<le> 2 ^ 1074"
  shows "float_mul (Finite f) (Finite r) = Finite (round_magnitude (f * r))"
proof -
  have "f * r \<le> 2 ^ 1137 * 2 ^ 1074"
    using assms by (intro mult_mono) simp_all
  also have "\<dots> = 2 ^ (1137 + 1074)" by (simp only: power_add)
  finally have "f * r \<le> 2 ^ 2211" by simp
  moreover have pos: "0 < f * r" using assms by simp
  ultimately have "round_magnitude (f * r) \<le> 2 ^ (2211 - 1074)"
    by (intro round_magnitude_le_pow) simp_all
  then have "round_magnitude (f * r) \<le> 2 ^ 1137" by simp
  with pow_1137_less have "round_magnitude (f * r) < 2 ^ 2098" by linarith
  with pos show ?thesis by (simp add: round_to_double_pos)
qed

lemma summary_sentences_count_eq:
  assumes "1 \<le> n" "n < 2 ^ 63" "0 < r" "r \<le> 2 ^ 1074"
  shows "\<exists>f. float_of_int n = Inr (Finite f) \<and> 2 ^ 1074 \<le> f \<and> f \<le> 2 ^ 1137 \<and>
             float_mul (Finite f) (Finite r) = Finite (round_magnitude (f * r)) \<and>
             0 \<le> round_magnitude (f * r) \<and>
             summary_sentences_count n (Finite r)
               = Inr (max 1 (round_magnitude (f * r) div 2 ^ 1074))"
proof -
  from float_of_int_bounds[OF assms(1,2)] obtain f where
    f: "float_of_int n = Inr (Finite f)" "2 ^ 1074 \<le> f" "f \<le> 2 ^ 1137" by blast
  have "(0::int) < 2 ^ 1074" by simp
  with f(2) have fpos: "0 < f" by linarith
  from float_mul_bounded[OF fpos f(3) assms(3,4)]
  have m: "float_mul (Finite f) (Finite r) = Finite (round_magnitude (f * r))" .
  have nn: "0 \<le> round_magnitude (f * r)"
    using fpos assms(3) by (intro round_magnitude_nonneg) simp
  then have "int_of_float (Finite (round_magnitude (f * r)))
               = Inr (round_magnitude (f * r) div 2 ^ 1074)"
    by (cases "round_magnitude (f * r) = 0") simp_all
  with f m nn show ?thesis
    by (auto simp: summary_sentences_count_def)
qed

lemma summary_sentences_count_mono:
  assumes "1 \<le> n" "n < 2 ^ 63" "0 < r1" "r1 \<le> r2" "r2 \<le> 2 ^ 1074"
  shows "\<exists>k1 k2. summary_sentences_count n (Finite r1) = Inr k1 \<and>
                 summary_sentences_count n (Finite r2) = Inr k2 \<and> 1 \<le> k1 \<and> k1 \<le> k2"
proof -
  from assms have r1: "r1 \<le> 2 ^ 1074" and r2: "0 < r2" by linarith+
  from summary_sentences_count_eq[OF assms(1,2,3) r1] obtain f where
    f: "float_of_int n = Inr (Finite f)" "2 ^ 1074 \<le> f"
    and k1: "summary_sentences_count n (Finite r1)
               = Inr (max 1 (round_magnitude (f * r1) div 2 ^ 1074))" by blast
  from summary_sentences_count_eq[OF assms(1,2) r2 assms(5)] f(1)
  have k2: "summary_sentences_count n (Finite r2)
               = Inr (max 1 (round_magnitude (f * r2) div 2 ^ 1074))" by auto
  have "(0::int) < 2 ^ 1074" by simp
  with f(2) have fpos: "0 < f" by linarith
  then have "f * r1 \<le> f * r2" using assms(4) by simp
  moreover have "0 \<le> f * r1" using fpos assms(3) by simp
  ultimately have "round_magnitude (f * r1) \<le> round_magnitude (f * r2)"
    by (rule round_magnitude_mono[rotated])
  then have "round_magnitude (f * r1) div 2 ^ 1074 \<le> round_magnitude (f * r2) div 2 ^ 1074"
    by (intro zdiv_mono1) simp_all
  with k1 k2 show ?thesis by auto
qed

lemma summary_sentences_count_one:
  assumes "1 \<le> n" "n < 2 ^ 53"
  shows "summary_sentences_count n (Finite (2 ^ 1074)) = Inr n"
proof -
  have "n * 2 ^ 1074 * 2 ^ 1074 = n * 2 ^ (1074 + 1074)"
    by (simp only: power_add mult.assoc)
  then have eq: "n * 2 ^ 1074 * 2 ^ 1074 = n * 2 ^ 2148" by simp
  from assms have "round_magnitude (n * 2 ^ 2148) = n * 2 ^ (2148 - 1074)"
    by (intro round_magnitude_exact) simp_all
  then have rm: "round_magnitude (n * 2 ^ 2148) = n * 2 ^ 1074" by simp
  have "n * 2 ^ 1074 \<le> 2 ^ 63 * 2 ^ 1074"
    using assms(2) by (intro mult_right_mono) (simp_all add: power_numeral)
  also have "\<dots> = 2 ^ (63 + 1074)" by (simp only: power_add)
  also have "\<dots> = 2 ^ 1137" by simp
  finally have "round_magnitude (n * 2 ^ 2148) < 2 ^ 2098"
    using rm pow_1137_less by linarith
  moreover have "0 < n * 2 ^ 2148" using assms(1) by simp
  ultimately have rd: "round_to_double (n * 2 ^ 2148) = Finite (n * 2 ^ 1074)"
    using round_to_double_pos[of "n * 2 ^ 2148"] rm by simp
  have "float_mul (Finite (n * 2 ^ 1074)) (Finite (2 ^ 1074))
          = round_to_double (n * 2 ^ 1074 * 2 ^ 1074)"
    by simp
  also have "\<dots> = round_to_double (n * 2 ^ 2148)" by (simp only: eq)
  finally have "float_mul (Finite (n * 2 ^ 1074)) (Finite (2 ^ 1074)) = Finite (n * 2 ^ 1074)"
    using rd by simp
  moreover have "0 < n * 2 ^ 1074" using assms(1) by simp
  ultimately show ?thesis
    using assms(1) by (simp add: summary_sentences_count_def float_of_int_exact[OF assms])
qed

declare power_numeral [simp]

section \<open>The pipeline and its two error results\<close>

lemma preprocess_text_eq: "preprocess_text text = (sentences_of text, lower_words text)"
  by (simp add: preprocess_text_def sentences_of_def lower_words_def Let_def)

lemma words_of_text: "snd (preprocess_text text) = lower_words text"
  by (simp add: preprocess_text_eq)

lemma score_sentences_of:
  "score_sentences (sentences_of text) (word_frequencies_of text)
     = (sentence_scores_of text, word_frequencies_of text)"
  by (simp add: sentence_scores_of_def score_sentences_eq)

lemma summary_indices_unfold:
  "summary_indices text ratio =
     (case summary_sentences_count (int (length (sentences_of text))) ratio of
        Inl e \<Rightarrow> Inl e
      | Inr count \<Rightarrow> Inr (top_indices (sentence_scores_of text) count))"
  using score_sentences_of[of "text"]
  by (simp add: summary_indices_def preprocess_text_eq word_frequencies_of_def)

lemma summarize_text_unfold:
  assumes "text \<noteq> []" "word_frequencies_of text \<noteq> []"
  shows "summarize_text text ratio =
     (case summary_indices text ratio of
        Inl e \<Rightarrow> Inl e
      | Inr idxs \<Rightarrow>
          (case getitems (sentences_of text) idxs of
             Inl e \<Rightarrow> Inl e
           | Inr summary_parts \<Rightarrow> Inr (join '' '' summary_parts)))"
  using assms score_sentences_of[of "text"]
  by (simp add: summarize_text_def summary_indices_unfold preprocess_text_eq
      word_frequencies_of_def split: sum.splits)

lemma word_frequencies_of_empty_iff:
  "word_frequencies_of text = [] \<longleftrightarrow> (\<forall>w \<in> set (lower_words text). w \<in> set STOP_WORDS)"
  by (simp add: word_frequencies_of_def word_frequencies_empty_iff words_of_text)

lemma word_frequencies_of_Nil [simp]: "word_frequencies_of [] = []"
  by (simp add: word_frequencies_of_empty_iff)

lemma summarize_text_empty: "summarize_text [] ratio = Inr ''Error: Input text is empty.''"
  by (simp add: summarize_text_def)

lemma summarize_text_no_content:
  assumes "text \<noteq> []" "word_frequencies_of text = []"
  shows "summarize_text text ratio =
     Inr ''Error: Could not calculate word frequencies (text may contain only stop words or be too short).''"
  using assms
  by (simp add: summarize_text_def preprocess_text_eq word_frequencies_of_def)

lemma the_an_is_words: "lower_words ''The. An. Is.'' = [''the'', ''an'', ''is'']"
  by code_simp

lemma the_an_is: "word_frequencies_of ''The. An. Is.'' = []"
  by (simp add: word_frequencies_of_empty_iff the_an_is_words STOP_WORDS_def)

text \<open>
  Claim C5: \<open>summarize_text\<close> reports an empty input text and a text whose frequency map
  is empty (only stop words, or no word character) each with its own message; the two
  messages differ, and the text \<open>"The. An. Is."\<close> gets the second message, not an empty
  summary.
\<close>

theorem error_results:
  "summarize_text [] ratio = Inr ''Error: Input text is empty.''
   \<and> (text \<noteq> [] \<and> word_frequencies_of text = [] \<longrightarrow>
        summarize_text text ratio =
          Inr ''Error: Could not calculate word frequencies (text may contain only stop words or be too short).'')
   \<and> (word_frequencies_of text = [] \<longleftrightarrow> (\<forall>w \<in> set (lower_words text). w \<in> set STOP_WORDS))
   \<and> ''Error: Input text is empty.'' \<noteq>
       ''Error: Could not calculate word frequencies (text may contain only stop words or be too short).''
   \<and> summarize_text ''The. An. Is.'' ratio =
        Inr ''Error: Could not calculate word frequencies (text may contain only stop words or be too short).''
   \<and> summarize_text ''The. An. Is.'' ratio \<noteq> Inr ''''"
  using summarize_text_no_content[of "text" ratio]
    summarize_text_no_content[of "''The. An. Is.''" ratio] the_an_is
  by (simp add: summarize_text_empty word_frequencies_of_empty_iff)

theorem error_results_witness:
  "''   '' \<noteq> [] \<and> word_frequencies_of ''   '' = []
   \<and> summarize_text ''   '' NaN =
        Inr ''Error: Could not calculate word frequencies (text may contain only stop words or be too short).''"
proof -
  have w: "lower_words ''   '' = []"
    by code_simp
  then have "word_frequencies_of ''   '' = []"
    by (simp add: word_frequencies_of_empty_iff)
  with error_results[of NaN "''   ''"] show ?thesis by simp
qed

end
